theory Spec2Isabelle
  imports Main "HOL-Library.Sublist"
begin

section \<open>Values and exceptions of the Python program\<close>

text \<open>
  \<^verbatim>\<open>src/main.py\<close> works on the JSON that the GitHub REST API returns, decoded into
  Python values, and never checks their shape: a missing key, a value of the wrong type
  or a malformed timestamp raises, and no \<^verbatim>\<open>try\<close> appears anywhere in the file, so every
  exception leaves \<^verbatim>\<open>clean_outdated_packages\<close>. The model keeps the decoded values
  untyped, as Python has them, and returns the exception as \<open>Inl\<close>.

  Strings are \<open>char list\<close>: the model covers strings whose characters have code points
  below 256. A JSON number is modelled by \<open>JNum\<close> over \<open>int\<close>; every operation applied
  to a value in this program treats a float like an integer (only its being zero is ever
  looked at). A decoded object is an association list in insertion order, looked up from
  the left.
\<close>

datatype error =
    GithubException
  | TransportError
  | KeyError
  | IndexError
  | TypeError
  | ValueError
  | AttributeError
  | OverflowError

datatype json =
    JNull
  | JBool bool
  | JNum int
  | JStr string
  | JList "json list"
  | JObj "(string \<times> json) list"

text \<open>\<^verbatim>\<open>value[key]\<close> with a string key: only a dict accepts it.\<close>

fun getitem_str :: "json \<Rightarrow> string \<Rightarrow> error + json" where
  "getitem_str (JObj kvs) k = (case map_of kvs k of None \<Rightarrow> Inl KeyError | Some v \<Rightarrow> Inr v)"
| "getitem_str JNull k = Inl TypeError"
| "getitem_str (JBool b) k = Inl TypeError"
| "getitem_str (JNum n) k = Inl TypeError"
| "getitem_str (JStr s) k = Inl TypeError"
| "getitem_str (JList xs) k = Inl TypeError"

text \<open>\<^verbatim>\<open>value[0]\<close>: the keys of a decoded object are strings, so \<open>0\<close> is never one.\<close>

fun getitem_0 :: "json \<Rightarrow> error + json" where
  "getitem_0 (JList []) = Inl IndexError"
| "getitem_0 (JList (x # xs)) = Inr x"
| "getitem_0 (JStr []) = Inl IndexError"
| "getitem_0 (JStr (c # cs)) = Inr (JStr [c])"
| "getitem_0 (JObj kvs) = Inl KeyError"
| "getitem_0 JNull = Inl TypeError"
| "getitem_0 (JBool b) = Inl TypeError"
| "getitem_0 (JNum n) = Inl TypeError"

text \<open>Truth value of a Python object, as \<^verbatim>\<open>not tags\<close> tests it.\<close>

fun truthy :: "json \<Rightarrow> bool" where
  "truthy JNull = False"
| "truthy (JBool b) = b"
| "truthy (JNum n) = (n \<noteq> 0)"
| "truthy (JStr s) = (s \<noteq> [])"
| "truthy (JList xs) = (xs \<noteq> [])"
| "truthy (JObj kvs) = (kvs \<noteq> [])"

text \<open>\<^verbatim>\<open>len(value)\<close>: defined on strings, lists and dicts.\<close>

fun py_len :: "json \<Rightarrow> error + nat" where
  "py_len (JStr s) = Inr (length s)"
| "py_len (JList xs) = Inr (length xs)"
| "py_len (JObj kvs) = Inr (length (remdups (map fst kvs)))"
| "py_len JNull = Inl TypeError"
| "py_len (JBool b) = Inl TypeError"
| "py_len (JNum n) = Inl TypeError"

text \<open>
  \<^verbatim>\<open>for x in value\<close>: a list gives its elements, a dict its keys, a string its
  characters; nothing else is iterable.
\<close>

fun py_iter :: "json \<Rightarrow> error + json list" where
  "py_iter (JList xs) = Inr xs"
| "py_iter (JObj kvs) = Inr (map JStr (remdups (map fst kvs)))"
| "py_iter (JStr s) = Inr (map (\<lambda>c. JStr [c]) s)"
| "py_iter JNull = Inl TypeError"
| "py_iter (JBool b) = Inl TypeError"
| "py_iter (JNum n) = Inl TypeError"

text \<open>\<^verbatim>\<open>value.startswith(prefix)\<close>: only \<^verbatim>\<open>str\<close> has the method.\<close>

fun py_startswith :: "json \<Rightarrow> string \<Rightarrow> error + bool" where
  "py_startswith (JStr s) p = Inr (prefix p s)"
| "py_startswith JNull p = Inl AttributeError"
| "py_startswith (JBool b) p = Inl AttributeError"
| "py_startswith (JNum n) p = Inl AttributeError"
| "py_startswith (JList xs) p = Inl AttributeError"
| "py_startswith (JObj kvs) p = Inl AttributeError"

section \<open>Regular expressions as Python's \<^verbatim>\<open>re\<close> matches them\<close>

text \<open>
  The fragment of \<^verbatim>\<open>re\<close> that the program and \<^verbatim>\<open>datetime.strptime\<close> use. \<open>rmatch r s\<close>
  lists what is left of \<open>s\<close> after each way of matching \<open>r\<close> at its start, in the order
  in which the backtracking matcher tries them (the first alternative first, the longest
  repetition first). \<^verbatim>\<open>match\<close> returns the first of them, or \<^verbatim>\<open>None\<close> when there is
  none. \<open>AnyStar\<close> is \<^verbatim>\<open>.*\<close>: without \<^verbatim>\<open>DOTALL\<close> the dot matches anything but a newline.
  \<open>Eol\<close> is \<^verbatim>\<open>$\<close> without \<^verbatim>\<open>MULTILINE\<close>: the end of the string, or just before a
  newline that ends the string. A leading \<^verbatim>\<open>^\<close> is not represented: \<^verbatim>\<open>match\<close> tries
  the pattern at position 0 only, where \<^verbatim>\<open>^\<close> holds.
\<close>

datatype regex =
    Eps
  | Chars string
  | AnyStar
  | Eol
  | Seq regex regex
  | Alt regex regex

definition newline :: char where
  "newline = CHR 0x0A"

fun any_star :: "string \<Rightarrow> string list" where
  "any_star [] = [Nil]"
| "any_star (c # cs) = (if c = newline then [c # cs] else any_star cs @ [c # cs])"

fun rmatch :: "regex \<Rightarrow> string \<Rightarrow> string list" where
  "rmatch Eps s = [s]"
| "rmatch (Chars cs) [] = []"
| "rmatch (Chars cs) (c # s) = (if c \<in> set cs then [s] else [])"
| "rmatch AnyStar s = any_star s"
| "rmatch Eol s = (if s = [] \<or> s = [newline] then [s] else [])"
| "rmatch (Seq a b) s = concat (map (rmatch b) (rmatch a s))"
| "rmatch (Alt a b) s = rmatch a s @ rmatch b s"

fun literal :: "string \<Rightarrow> regex" where
  "literal [] = Eps"
| "literal (c # cs) = Seq (Chars [c]) (literal cs)"

text \<open>\<^verbatim>\<open>pattern.match(s) is not None\<close>\<close>

definition re_match :: "regex \<Rightarrow> string \<Rightarrow> bool" where
  "re_match r s = (rmatch r s \<noteq> [])"

section \<open>The tag rule\<close>

text \<open>\<^verbatim>\<open>TAMP_TAG = re.compile(r"^(temp|poc|feat|dev|debug)-.*$")\<close>\<close>

definition TAMP_TAG :: regex where
  "TAMP_TAG =
     Seq (Alt (literal ''temp'') (Alt (literal ''poc'') (Alt (literal ''feat'')
            (Alt (literal ''dev'') (literal ''debug'')))))
       (Seq (Chars ''-'') (Seq AnyStar Eol))"

text \<open>\<^verbatim>\<open>TAMP_TAG.match(tag) is not None\<close>: \<^verbatim>\<open>match\<close> wants a string.\<close>

fun tamp_tag_match :: "json \<Rightarrow> error + bool" where
  "tamp_tag_match (JStr s) = Inr (re_match TAMP_TAG s)"
| "tamp_tag_match JNull = Inl TypeError"
| "tamp_tag_match (JBool b) = Inl TypeError"
| "tamp_tag_match (JNum n) = Inl TypeError"
| "tamp_tag_match (JList xs) = Inl TypeError"
| "tamp_tag_match (JObj kvs) = Inl TypeError"

text \<open>
  \<^verbatim>\<open>
  def is_tags_safe_to_delete(self, tags: list[str] | None) -> bool:
      if not tags:
          return True
      if len(tags) == 1:
          tag = tags[0]
          return TAMP_TAG.match(tag) is not None
      return False
  \<close>
\<close>

definition is_tags_safe_to_delete :: "json \<Rightarrow> error + bool" where
  "is_tags_safe_to_delete tags =
     (if \<not> truthy tags then Inr True
      else case py_len tags of
        Inl e \<Rightarrow> Inl e
      | Inr n \<Rightarrow>
          if n = 1 then
            (case getitem_0 tags of
               Inl e \<Rightarrow> Inl e
             | Inr tag \<Rightarrow> tamp_tag_match tag)
          else Inr False)"

text \<open>
  What the pattern says in words: one of the five prefixes, a hyphen, and a rest that
  stays on one line (a single newline may end it).
\<close>

definition disposable_prefixes :: "string list" where
  "disposable_prefixes = [''temp'', ''poc'', ''feat'', ''dev'', ''debug'']"

definition single_line :: "string \<Rightarrow> bool" where
  "single_line s \<longleftrightarrow> newline \<notin> set s \<or> (\<exists>r. s = r @ [newline] \<and> newline \<notin> set r)"

definition disposable_tag :: "string \<Rightarrow> bool" where
  "disposable_tag t \<longleftrightarrow>
     (\<exists>p \<in> set disposable_prefixes. \<exists>rest. t = p @ ''-'' @ rest \<and> single_line rest)"

section \<open>Timestamps\<close>

text \<open>
  \<^verbatim>\<open>datetime.strptime(version["created_at"], "%Y-%m-%dT%H:%M:%SZ")\<close>. CPython's
  \<^verbatim>\<open>_strptime\<close> (here as of 3.11) turns the format into a regular expression, one named group for each
  directive, compiles it with \<^verbatim>\<open>IGNORECASE\<close> (so the letters of the format match in
  either case), takes the first match at the start of the string and raises
  \<^verbatim>\<open>ValueError\<close> when there is none or when it leaves part of the string over. The
  groups of the directives, as \<^verbatim>\<open>_strptime.TimeRE\<close> has them:
  \<^verbatim>\<open>
  'Y': r"(?P<Y>\d\d\d\d)"
  'm': r"(?P<m>1[0-2]|0[1-9]|[1-9])"
  'd': r"(?P<d>3[0-1]|[1-2]\d|0[1-9]|[1-9]| [1-9])"
  'H': r"(?P<H>2[0-3]|[0-1]\d|\d)"
  'M': r"(?P<M>[0-5]\d|\d)"
  'S': r"(?P<S>6[0-1]|[0-5]\d|\d)"
  \<close>
\<close>

definition digit :: regex where
  "digit = Chars ''0123456789''"

definition nonzero :: regex where
  "nonzero = Chars ''123456789''"

definition re_Y :: regex where
  "re_Y = Seq digit (Seq digit (Seq digit digit))"

definition re_m :: regex where
  "re_m = Alt (Seq (Chars ''1'') (Chars ''012'')) (Alt (Seq (Chars ''0'') nonzero) nonzero)"

definition re_d :: regex where
  "re_d = Alt (Seq (Chars ''3'') (Chars ''01'')) (Alt (Seq (Chars ''12'') digit)
            (Alt (Seq (Chars ''0'') nonzero) (Alt nonzero (Seq (Chars '' '') nonzero))))"

definition re_H :: regex where
  "re_H = Alt (Seq (Chars ''2'') (Chars ''0123'')) (Alt (Seq (Chars ''01'') digit) digit)"

definition re_M :: regex where
  "re_M = Alt (Seq (Chars ''012345'') digit) digit"

definition re_S :: regex where
  "re_S = Alt (Seq (Chars ''6'') (Chars ''01'')) (Alt (Seq (Chars ''012345'') digit) digit)"

text \<open>
  A match of a group, with the text it captured. The format is
  \<^verbatim>\<open>%Y-%m-%dT%H:%M:%SZ\<close>; \<open>created_at_matches\<close> lists the matches of its regular
  expression in backtracking order, each with its six captures and the rest of the
  string.
\<close>

definition capture :: "regex \<Rightarrow> string \<Rightarrow> (string \<times> string) list" where
  "capture r s = map (\<lambda>rest. (take (length s - length rest) s, rest)) (rmatch r s)"

definition created_at_matches :: "string \<Rightarrow> (string list \<times> string) list" where
  "created_at_matches s0 =
     List.bind (capture re_Y s0) (\<lambda>(Y, s1).
     List.bind (rmatch (Chars ''-'') s1) (\<lambda>s2.
     List.bind (capture re_m s2) (\<lambda>(m, s3).
     List.bind (rmatch (Chars ''-'') s3) (\<lambda>s4.
     List.bind (capture re_d s4) (\<lambda>(d, s5).
     List.bind (rmatch (Chars ''Tt'') s5) (\<lambda>s6.
     List.bind (capture re_H s6) (\<lambda>(H, s7).
     List.bind (rmatch (Chars '':'') s7) (\<lambda>s8.
     List.bind (capture re_M s8) (\<lambda>(M, s9).
     List.bind (rmatch (Chars '':'') s9) (\<lambda>s10.
     List.bind (capture re_S s10) (\<lambda>(S, s11).
     List.bind (rmatch (Chars ''Zz'') s11) (\<lambda>s12.
       [([Y, m, d, H, M, S], s12)]))))))))))))"

text \<open>
  \<^verbatim>\<open>int(text)\<close> on a capture: decimal digits, blanks around them ignored (the day may
  be captured with a leading blank).
\<close>

definition digit_value :: "char \<Rightarrow> nat" where
  "digit_value c = of_char c - 48"

definition py_int :: "string \<Rightarrow> nat" where
  "py_int s = foldl (\<lambda>n c. 10 * n + digit_value c) 0 (filter (\<lambda>c. c \<noteq> CHR '' '') s)"

text \<open>
  An instant is the number of microseconds since \<^verbatim>\<open>datetime.min\<close>
  (0001-01-01T00:00:00 UTC). Both datetimes that the program compares carry
  \<^verbatim>\<open>timezone.utc\<close>, so \<^verbatim>\<open><\<close> on them is \<open><\<close> on their instants. The calendar
  functions are those of CPython's \<^verbatim>\<open>datetime\<close>: \<^verbatim>\<open>_is_leap\<close>, \<^verbatim>\<open>_days_in_month\<close>,
  \<^verbatim>\<open>_days_before_year\<close>, \<^verbatim>\<open>_days_before_month\<close>, \<^verbatim>\<open>_ymd2ord\<close>.
\<close>

type_synonym instant = int

definition is_leap :: "nat \<Rightarrow> bool" where
  "is_leap y \<longleftrightarrow> y mod 4 = 0 \<and> (y mod 100 \<noteq> 0 \<or> y mod 400 = 0)"

definition DAYS_IN_MONTH :: "nat list" where
  "DAYS_IN_MONTH = [31, 28, 31, 30, 31, 30, 31, 31, 30, 31, 30, 31]"

definition days_in_month :: "nat \<Rightarrow> nat \<Rightarrow> nat" where
  "days_in_month y m = (if m = 2 \<and> is_leap y then 29 else DAYS_IN_MONTH ! (m - 1))"

definition days_before_year :: "nat \<Rightarrow> int" where
  "days_before_year y =
     (let y1 = int y - 1 in y1 * 365 + y1 div 4 - y1 div 100 + y1 div 400)"

definition days_before_month :: "nat \<Rightarrow> nat \<Rightarrow> int" where
  "days_before_month y m =
     int (sum_list (take (m - 1) DAYS_IN_MONTH)) + (if 2 < m \<and> is_leap y then 1 else 0)"

definition ymd2ord :: "nat \<Rightarrow> nat \<Rightarrow> nat \<Rightarrow> int" where
  "ymd2ord y m d = days_before_year y + days_before_month y m + int d"

text \<open>
  The constructor's range checks (\<^verbatim>\<open>MINYEAR = 1\<close>, \<^verbatim>\<open>MAXYEAR = 9999\<close>): a date
  that does not exist or a second of 60 or 61, which the regular expression lets
  through, is a \<^verbatim>\<open>ValueError\<close>.
\<close>

definition make_datetime :: "nat \<Rightarrow> nat \<Rightarrow> nat \<Rightarrow> nat \<Rightarrow> nat \<Rightarrow> nat \<Rightarrow> error + instant" where
  "make_datetime y m d H M S =
     (if 1 \<le> y \<and> y \<le> 9999 \<and> 1 \<le> m \<and> m \<le> 12 \<and> 1 \<le> d \<and> d \<le> days_in_month y m
         \<and> H \<le> 23 \<and> M \<le> 59 \<and> S \<le> 59
      then Inr (((((ymd2ord y m d - 1) * 24 + int H) * 60 + int M) * 60 + int S) * 1000000)
      else Inl ValueError)"

definition strptime_str :: "string \<Rightarrow> error + instant" where
  "strptime_str s =
     (case created_at_matches s of
        [] \<Rightarrow> Inl ValueError
      | (groups, rest) # others \<Rightarrow>
          if rest \<noteq> [] then Inl ValueError
          else (case map py_int groups of
                  [y, m, d, H, M, S] \<Rightarrow> make_datetime y m d H M S
                | _ \<Rightarrow> Inl ValueError))"

text \<open>The first argument of \<^verbatim>\<open>strptime\<close> must be a \<^verbatim>\<open>str\<close>.\<close>

fun strptime :: "json \<Rightarrow> error + instant" where
  "strptime (JStr s) = strptime_str s"
| "strptime JNull = Inl TypeError"
| "strptime (JBool b) = Inl TypeError"
| "strptime (JNum n) = Inl TypeError"
| "strptime (JList xs) = Inl TypeError"
| "strptime (JObj kvs) = Inl TypeError"

text \<open>
  \<^verbatim>\<open>datetime.now(timezone.utc) - timedelta(days=30)\<close>: the difference must not fall
  before \<^verbatim>\<open>datetime.min\<close>.
\<close>

definition thirty_days :: int where
  "thirty_days = 30 * 24 * 60 * 60 * 1000000"

definition one_month_ago :: "instant \<Rightarrow> error + instant" where
  "one_month_ago now = (if now - thirty_days < 0 then Inl OverflowError else Inr (now - thirty_days))"

section \<open>The retention decision\<close>

text \<open>\<^verbatim>\<open>version["metadata"]["container"]["tags"]\<close>\<close>

definition tags_of :: "json \<Rightarrow> error + json" where
  "tags_of version =
     (case getitem_str version ''metadata'' of
        Inl e \<Rightarrow> Inl e
      | Inr metadata \<Rightarrow>
          (case getitem_str metadata ''container'' of
             Inl e \<Rightarrow> Inl e
           | Inr container \<Rightarrow> getitem_str container ''tags''))"

text \<open>
  The body of the loop of \<^verbatim>\<open>get_outdated_versions\<close>, for one version: whether it is
  appended to \<^verbatim>\<open>outdated\<close>.
  \<^verbatim>\<open>
  created_at = datetime.strptime(
      version["created_at"], "%Y-%m-%dT%H:%M:%SZ"
  ).replace(tzinfo=timezone.utc)
  tags = version["metadata"]["container"]["tags"]
  if created_at < one_month_ago and self.is_tags_safe_to_delete(tags):
      outdated.append(version)
  \<close>
  \<^verbatim>\<open>and\<close> does not evaluate its right side when the left one is false.
\<close>

definition version_verdict :: "instant \<Rightarrow> json \<Rightarrow> error + bool" where
  "version_verdict month_ago version =
     (case getitem_str version ''created_at'' of
        Inl e \<Rightarrow> Inl e
      | Inr text \<Rightarrow>
          (case strptime text of
             Inl e \<Rightarrow> Inl e
           | Inr created_at \<Rightarrow>
               (case tags_of version of
                  Inl e \<Rightarrow> Inl e
                | Inr tags \<Rightarrow>
                    if created_at < month_ago then is_tags_safe_to_delete tags
                    else Inr False)))"

fun outdated_versions :: "instant \<Rightarrow> json list \<Rightarrow> error + json list" where
  "outdated_versions month_ago [] = Inr []"
| "outdated_versions month_ago (version # versions) =
     (case version_verdict month_ago version of
        Inl e \<Rightarrow> Inl e
      | Inr delete \<Rightarrow>
          (case outdated_versions month_ago versions of
             Inl e \<Rightarrow> Inl e
           | Inr outdated \<Rightarrow> Inr (if delete then version # outdated else outdated)))"

section \<open>The registry, the clock and the trace of a run\<close>

text \<open>
  The program reaches the outside through three requests
  (\<^verbatim>\<open>self.github._Github__requester.requestJsonAndCheck\<close> with \<^verbatim>\<open>GET\<close> on the
  packages of the organisation, \<^verbatim>\<open>GET\<close> on the versions of a package, \<^verbatim>\<open>DELETE\<close> on
  one version), through \<^verbatim>\<open>datetime.now\<close> and through \<^verbatim>\<open>print\<close>. The outside is a
  state of any type \<open>'w\<close> with one operation for each request and one for the clock;
  each returns its answer and the next state, so the registry may answer differently
  after a deletion and the clock may move between two readings. A request answers with
  the decoded body, or raises (\<open>Inl\<close>); a deletion answers nothing, or raises.
  The organisation and the token are fixed for a run and belong to the gateway.

  Every function below returns, with its result and the next state, the events it
  caused, in order: each request with its answer, each clock reading, each line
  printed.
\<close>

record 'w gateway =
  list_packages :: "'w \<Rightarrow> (error + json) \<times> 'w"
  list_versions :: "json \<Rightarrow> 'w \<Rightarrow> (error + json) \<times> 'w"
  delete_version :: "json \<Rightarrow> json \<Rightarrow> 'w \<Rightarrow> error option \<times> 'w"
  utc_now :: "'w \<Rightarrow> instant \<times> 'w"

datatype message =
    Found_packages "json list"
  | Deleting json json
  | Cleanup_done
  | Nothing_outdated

datatype event =
    ListPackages "error + json"
  | ListVersions json "error + json"
  | Now instant
  | DeleteVersion json json "error option"
  | Print message

text \<open>
  \<^verbatim>\<open>
  return [
      pkg for pkg in packages if pkg["name"].startswith(self.container_prefix)
  ]
  \<close>
\<close>

fun matching_packages :: "string \<Rightarrow> json list \<Rightarrow> error + json list" where
  "matching_packages container_prefix [] = Inr []"
| "matching_packages container_prefix (pkg # pkgs) =
     (case getitem_str pkg ''name'' of
        Inl e \<Rightarrow> Inl e
      | Inr name \<Rightarrow>
          (case py_startswith name container_prefix of
             Inl e \<Rightarrow> Inl e
           | Inr keep \<Rightarrow>
               (case matching_packages container_prefix pkgs of
                  Inl e \<Rightarrow> Inl e
                | Inr rest \<Rightarrow> Inr (if keep then pkg # rest else rest))))"

definition select_packages :: "string \<Rightarrow> json \<Rightarrow> error + json list" where
  "select_packages container_prefix packages =
     (case py_iter packages of
        Inl e \<Rightarrow> Inl e
      | Inr pkgs \<Rightarrow> matching_packages container_prefix pkgs)"

definition get_packages ::
  "'w gateway \<Rightarrow> string \<Rightarrow> 'w \<Rightarrow> (error + json list) \<times> 'w \<times> event list" where
  "get_packages g container_prefix w =
     (case list_packages g w of
        (Inl e, w1) \<Rightarrow> (Inl e, w1, [ListPackages (Inl e)])
      | (Inr packages, w1) \<Rightarrow>
          (select_packages container_prefix packages, w1, [ListPackages (Inr packages)]))"

text \<open>
  \<^verbatim>\<open>get_outdated_versions\<close>: the request, then one reading of the clock, then the
  loop over the versions. \<open>outdated_at\<close> is what follows the reading:
  \<^verbatim>\<open>
  one_month_ago = datetime.now(timezone.utc) - timedelta(days=30)
  outdated = []
  for version in versions:
      ...
  return outdated
  \<close>
\<close>

definition outdated_at :: "instant \<Rightarrow> json \<Rightarrow> error + json list" where
  "outdated_at now versions =
     (case one_month_ago now of
        Inl e \<Rightarrow> Inl e
      | Inr month_ago \<Rightarrow>
          (case py_iter versions of
             Inl e \<Rightarrow> Inl e
           | Inr vs \<Rightarrow> outdated_versions month_ago vs))"

definition get_outdated_versions ::
  "'w gateway \<Rightarrow> json \<Rightarrow> 'w \<Rightarrow> (error + json list) \<times> 'w \<times> event list" where
  "get_outdated_versions g pkg_name w =
     (case list_versions g pkg_name w of
        (Inl e, w1) \<Rightarrow> (Inl e, w1, [ListVersions pkg_name (Inl e)])
      | (Inr versions, w1) \<Rightarrow>
          (case utc_now g w1 of
             (now, w2) \<Rightarrow>
               (outdated_at now versions, w2,
                [ListVersions pkg_name (Inr versions), Now now])))"

text \<open>
  \<^verbatim>\<open>
  def delete_package_version(self, pkg_name: str, version_id: int) -> None:
      print(f"... {pkg_name} ... {version_id}")
      self.github._Github__requester.requestJsonAndCheck("DELETE", ...)
  \<close>
\<close>

definition delete_package_version ::
  "'w gateway \<Rightarrow> json \<Rightarrow> json \<Rightarrow> 'w \<Rightarrow> (error + unit) \<times> 'w \<times> event list" where
  "delete_package_version g pkg_name version_id w =
     (case delete_version g pkg_name version_id w of
        (answer, w1) \<Rightarrow>
          ((case answer of None \<Rightarrow> Inr () | Some e \<Rightarrow> Inl e), w1,
           [Print (Deleting pkg_name version_id), DeleteVersion pkg_name version_id answer]))"

text \<open>
  The inner loop of \<^verbatim>\<open>clean_outdated_packages\<close>, with \<^verbatim>\<open>has_outdated\<close> as it
  stands before and after:
  \<^verbatim>\<open>
  for version in outdated_versions:
      self.delete_package_version(pkg["name"], version["id"])
      has_outdated = True
  \<close>
\<close>

fun delete_versions ::
  "'w gateway \<Rightarrow> json \<Rightarrow> json list \<Rightarrow> bool \<Rightarrow> 'w \<Rightarrow> (error + bool) \<times> 'w \<times> event list" where
  "delete_versions g pkg [] has_outdated w = (Inr has_outdated, w, [])"
| "delete_versions g pkg (version # versions) has_outdated w =
     (case getitem_str pkg ''name'' of
        Inl e \<Rightarrow> (Inl e, w, [])
      | Inr pkg_name \<Rightarrow>
          (case getitem_str version ''id'' of
             Inl e \<Rightarrow> (Inl e, w, [])
           | Inr version_id \<Rightarrow>
               (case delete_package_version g pkg_name version_id w of
                  (Inl e, w1, tr1) \<Rightarrow> (Inl e, w1, tr1)
                | (Inr u, w1, tr1) \<Rightarrow>
                    (case delete_versions g pkg versions True w1 of
                       (r, w2, tr2) \<Rightarrow> (r, w2, tr1 @ tr2)))))"

text \<open>
  The outer loop:
  \<^verbatim>\<open>
  for pkg in packages:
      outdated_versions = self.get_outdated_versions(pkg["name"])
      for version in outdated_versions: ...
  \<close>
\<close>

fun clean_packages ::
  "'w gateway \<Rightarrow> json list \<Rightarrow> bool \<Rightarrow> 'w \<Rightarrow> (error + bool) \<times> 'w \<times> event list" where
  "clean_packages g [] has_outdated w = (Inr has_outdated, w, [])"
| "clean_packages g (pkg # pkgs) has_outdated w =
     (case getitem_str pkg ''name'' of
        Inl e \<Rightarrow> (Inl e, w, [])
      | Inr pkg_name \<Rightarrow>
          (case get_outdated_versions g pkg_name w of
             (Inl e, w1, tr1) \<Rightarrow> (Inl e, w1, tr1)
           | (Inr outdated, w1, tr1) \<Rightarrow>
               (case delete_versions g pkg outdated has_outdated w1 of
                  (Inl e, w2, tr2) \<Rightarrow> (Inl e, w2, tr1 @ tr2)
                | (Inr has_outdated', w2, tr2) \<Rightarrow>
                    (case clean_packages g pkgs has_outdated' w2 of
                       (r, w3, tr3) \<Rightarrow> (r, w3, tr1 @ tr2 @ tr3)))))"

text \<open>\<^verbatim>\<open>[p['name'] for p in packages]\<close>, printed before the loop.\<close>

fun package_names :: "json list \<Rightarrow> error + json list" where
  "package_names [] = Inr []"
| "package_names (p # ps) =
     (case getitem_str p ''name'' of
        Inl e \<Rightarrow> Inl e
      | Inr name \<Rightarrow>
          (case package_names ps of Inl e \<Rightarrow> Inl e | Inr names \<Rightarrow> Inr (name # names)))"

text \<open>
  \<^verbatim>\<open>
  def clean_outdated_packages(self) -> None:
      packages = self.get_packages()
      print(f"...: {[p['name'] for p in packages]}")
      has_outdated = False
      for pkg in packages: ...
      if has_outdated:
          print("...")      # cleanup done
      else:
          print("...")      # no outdated package found
  \<close>
\<close>

definition clean_outdated_packages ::
  "'w gateway \<Rightarrow> string \<Rightarrow> 'w \<Rightarrow> (error + unit) \<times> 'w \<times> event list" where
  "clean_outdated_packages g container_prefix w =
     (case get_packages g container_prefix w of
        (Inl e, w1, tr1) \<Rightarrow> (Inl e, w1, tr1)
      | (Inr packages, w1, tr1) \<Rightarrow>
          (case package_names packages of
             Inl e \<Rightarrow> (Inl e, w1, tr1)
           | Inr names \<Rightarrow>
               (case clean_packages g packages False w1 of
                  (Inl e, w2, tr2) \<Rightarrow> (Inl e, w2, tr1 @ Print (Found_packages names) # tr2)
                | (Inr has_outdated, w2, tr2) \<Rightarrow>
                    (Inr (), w2,
                     tr1 @ Print (Found_packages names) # tr2 @
                     [Print (if has_outdated then Cleanup_done else Nothing_outdated)]))))"

section \<open>Reading a trace\<close>

text \<open>
  The deletions requested, the versions listings requested, the clock readings and the
  lines of summary of a trace, each in order.
\<close>

fun deletions :: "event list \<Rightarrow> (json \<times> json) list" where
  "deletions [] = []"
| "deletions (DeleteVersion n i a # tr) = (n, i) # deletions tr"
| "deletions (e # tr) = deletions tr"

fun listings :: "event list \<Rightarrow> json list" where
  "listings [] = []"
| "listings (ListVersions n a # tr) = n # listings tr"
| "listings (e # tr) = listings tr"

fun clock_readings :: "event list \<Rightarrow> instant list" where
  "clock_readings [] = []"
| "clock_readings (Now t # tr) = t # clock_readings tr"
| "clock_readings (e # tr) = clock_readings tr"

fun summaries :: "event list \<Rightarrow> message list" where
  "summaries [] = []"
| "summaries (Print Cleanup_done # tr) = Cleanup_done # summaries tr"
| "summaries (Print Nothing_outdated # tr) = Nothing_outdated # summaries tr"
| "summaries (e # tr) = summaries tr"

text \<open>The exception a request for a deletion raised, if it did.\<close>

fun failure_of :: "event \<Rightarrow> error option" where
  "failure_of (DeleteVersion n i a) = a"
| "failure_of e = None"

text \<open>The events of the inner loop: the line printed and the request.\<close>

fun deletion_event :: "event \<Rightarrow> bool" where
  "deletion_event (DeleteVersion n i a) = True"
| "deletion_event (Print (Deleting n i)) = True"
| "deletion_event e = False"

text \<open>The events of the two loops: those of the inner one, a listing, a clock reading.\<close>

fun loop_event :: "event \<Rightarrow> bool" where
  "loop_event (ListVersions n a) = True"
| "loop_event (Now t) = True"
| "loop_event e = deletion_event e"

section \<open>What a trace should show\<close>

text \<open>
  The versions of a listing that the retention rule marks for deletion at a clock
  reading, in the order of the listing: those created strictly more than 30 days before
  the reading whose tags are safe.
\<close>

definition delete_verdicts :: "instant \<Rightarrow> json \<Rightarrow> json list" where
  "delete_verdicts now versions =
     (case py_iter versions of
        Inl e \<Rightarrow> []
      | Inr vs \<Rightarrow> filter (\<lambda>v. version_verdict (now - thirty_days) v = Inr True) vs)"

text \<open>
  The deletions that the listings and clock readings of a trace call for: for each
  listing that was answered, with the reading that follows it, the package name and the
  \<^verbatim>\<open>id\<close> of each version marked for deletion; listings in the order of the trace,
  versions in the order of the listing. \<open>requested\<close> is the deletions of the trace in
  the same form.
\<close>

fun expected_deletions :: "event list \<Rightarrow> (json \<times> (error + json)) list" where
  "expected_deletions [] = []"
| "expected_deletions (ListVersions n (Inr versions) # Now t # tr) =
     map (\<lambda>v. (n, getitem_str v ''id'')) (delete_verdicts t versions) @ expected_deletions tr"
| "expected_deletions (e # tr) = expected_deletions tr"

definition requested :: "event list \<Rightarrow> (json \<times> (error + json)) list" where
  "requested tr = map (\<lambda>(n, i). (n, Inr i)) (deletions tr)"

text \<open>
  A trace in which the clock is read once after each listing that was answered, and at
  no other time.
\<close>

fun readings_follow_listings :: "event list \<Rightarrow> bool" where
  "readings_follow_listings [] = True"
| "readings_follow_listings (ListVersions n (Inr versions) # Now t # tr) =
     readings_follow_listings tr"
| "readings_follow_listings (ListVersions n (Inr versions) # tr) = False"
| "readings_follow_listings (Now t # tr) = False"
| "readings_follow_listings (e # tr) = readings_follow_listings tr"

text \<open>
  The names of the packages of an answer that start with the prefix, in the order of
  the answer.
\<close>

fun has_prefix :: "string \<Rightarrow> json \<Rightarrow> bool" where
  "has_prefix p (JStr s) = prefix p s"
| "has_prefix p v = False"

definition qualifying_names :: "string \<Rightarrow> json \<Rightarrow> json list" where
  "qualifying_names p packages =
     (case py_iter packages of
        Inl e \<Rightarrow> []
      | Inr pkgs \<Rightarrow>
          concat (map (\<lambda>pkg. case getitem_str pkg ''name'' of
                               Inl e \<Rightarrow> []
                             | Inr name \<Rightarrow> if has_prefix p name then [name] else []) pkgs))"

text \<open>
  A trace in which no request for a deletion raised, except possibly the last event, and
  then the result is that exception.
\<close>

definition stops_at_failure :: "error + 'a \<Rightarrow> event list \<Rightarrow> bool" where
  "stops_at_failure r tr \<longleftrightarrow>
     (\<forall>ev \<in> set (butlast tr). failure_of ev = None) \<and>
     (\<forall>e. tr \<noteq> [] \<and> failure_of (last tr) = Some e \<longrightarrow> r = Inl e)"

text \<open>A package that \<^verbatim>\<open>get_packages\<close> keeps: its name starts with the prefix.\<close>

definition qualifies :: "string \<Rightarrow> json \<Rightarrow> bool" where
  "qualifies p pkg = (case getitem_str pkg ''name'' of Inl e \<Rightarrow> False | Inr name \<Rightarrow> has_prefix p name)"

section \<open>Example data\<close>

text \<open>
  A version and a package as the API returns them, cut down to the keys the program
  reads, and a registry whose answers are fixed: the state counts the readings of the
  clock, so that the clock can move during a run.
\<close>

definition mk_version :: "int \<Rightarrow> string \<Rightarrow> json \<Rightarrow> json" where
  "mk_version i created tags =
     JObj [(''id'', JNum i), (''created_at'', JStr created),
           (''metadata'', JObj [(''package_type'', JStr ''container''),
                               (''container'', JObj [(''tags'', tags)])])]"

definition mk_package :: "int \<Rightarrow> string \<Rightarrow> json" where
  "mk_package i name = JObj [(''id'', JNum i), (''name'', JStr name), (''version_count'', JNum 3)]"

definition fixed_registry ::
  "json \<Rightarrow> (json \<Rightarrow> error + json) \<Rightarrow> (json \<Rightarrow> json \<Rightarrow> error option) \<Rightarrow> (nat \<Rightarrow> instant)
     \<Rightarrow> nat gateway" where
  "fixed_registry packages versions failure clock =
     \<lparr>list_packages = (\<lambda>w. (Inr packages, w)),
      list_versions = (\<lambda>n w. (versions n, w)),
      delete_version = (\<lambda>n i w. (failure n i, w)),
      utc_now = (\<lambda>w. (clock w, Suc w))\<rparr>"

text \<open>2024-03-01T00:00:00 UTC.\<close>

definition march_1st :: instant where
  "march_1st = 63844848000000000"

text \<open>
  Three packages, of which two carry the prefix \<^verbatim>\<open>writing-\<close>. The versions of
  \<^verbatim>\<open>writing-api\<close> were created 40, 5 and 35 days before the first of March; the other
  packages have none.
\<close>

definition three_packages :: json where
  "three_packages =
     JList [mk_package 1 ''writing-api'', mk_package 2 ''writing-web'', mk_package 3 ''other-svc'']"

definition api_versions :: json where
  "api_versions =
     JList [mk_version 1 ''2024-01-21T00:00:00Z'' (JList []),
            mk_version 2 ''2024-02-25T00:00:00Z'' (JList [JStr ''prod'']),
            mk_version 3 ''2024-01-26T00:00:00Z'' (JList [JStr ''poc-x''])]"

definition versions_of_api :: "json \<Rightarrow> error + json" where
  "versions_of_api n = (if n = JStr ''writing-api'' then Inr api_versions else Inr (JList []))"

text \<open>A registry that deletes what it is asked to, and one that refuses version 1.\<close>

definition healthy_registry :: "nat gateway" where
  "healthy_registry = fixed_registry three_packages versions_of_api (\<lambda>n i. None) (\<lambda>k. march_1st)"

definition stuck_registry :: "nat gateway" where
  "stuck_registry =
     fixed_registry three_packages versions_of_api
       (\<lambda>n i. if i = JNum 1 then Some GithubException else None) (\<lambda>k. march_1st)"


text \<open>One package with one old untagged version, which the registry refuses to delete.\<close>

definition failing_registry :: "nat gateway" where
  "failing_registry =
     fixed_registry (JList [mk_package 1 ''writing-api''])
       (\<lambda>n. Inr (JList [mk_version 7 ''2024-01-21T00:00:00Z'' (JList [])]))
       (\<lambda>n i. Some GithubException) (\<lambda>k. march_1st)"

text \<open>
  One package whose second version carries a timestamp that \<^verbatim>\<open>strptime\<close> rejects, and
  one package whose only version has no \<^verbatim>\<open>container\<close> under \<^verbatim>\<open>metadata\<close>. The other
  version of the first and the version of the second are 40 days old.
\<close>

definition garbled_version :: json where
  "garbled_version = mk_version 5 ''2024-01-31 00:00:00'' (JList [])"

definition garbled_versions :: json where
  "garbled_versions = JList [mk_version 1 ''2024-01-21T00:00:00Z'' (JList []), garbled_version]"

definition garbled_registry :: "nat gateway" where
  "garbled_registry =
     fixed_registry (JList [mk_package 1 ''writing-api'']) (\<lambda>n. Inr garbled_versions)
       (\<lambda>n i. None) (\<lambda>k. march_1st)"



text \<open>
  Two packages that each hold one untagged version created on 2024-01-31T00:00:00Z,
  30 days before the first of March, and a clock that has moved on by a microsecond
  when it is read again.
\<close>

definition ticking_registry :: "nat gateway" where
  "ticking_registry =
     fixed_registry (JList [mk_package 1 ''writing-api'', mk_package 2 ''writing-web''])
       (\<lambda>n. Inr (JList [mk_version 1 ''2024-01-31T00:00:00Z'' (JList [])]))
       (\<lambda>n i. None) (\<lambda>k. march_1st + int k)"

section \<open>Properties of the tag rule\<close>

lemma rmatch_literal:
  "rmatch (literal p) s = (if prefix p s then [drop (length p) s] else [])"
proof (induction p arbitrary: s)
  case Nil
  show ?case by simp
next
  case (Cons c p)
  show ?case
  proof (cases s)
    case Nil
    then show ?thesis by simp
  next
    case (Cons d s')
    with Cons.IH [of s'] show ?thesis by simp
  qed
qed

lemma any_star_eol:
  "concat (map (rmatch Eol) (any_star s)) \<noteq> [] \<longleftrightarrow> single_line s"
proof (induction s)
  case Nil
  show ?case by (simp add: single_line_def)
next
  case (Cons c s)
  show ?case
  proof (cases "c = newline")
    case True
    have "single_line (newline # s) \<longleftrightarrow> s = []"
    proof
      assume "single_line (newline # s)"
      then obtain r where r: "newline # s = r @ [newline]" "newline \<notin> set r"
        by (auto simp: single_line_def)
      then show "s = []" by (cases r) auto
    next
      assume "s = []"
      then show "single_line (newline # s)"
        by (simp add: single_line_def)
    qed
    with True show ?thesis by simp
  next
    case False
    have "single_line (c # s) \<longleftrightarrow> single_line s"
    proof
      assume "single_line (c # s)"
      then consider "newline \<notin> set (c # s)"
        | r where "c # s = r @ [newline]" "newline \<notin> set r"
        by (auto simp: single_line_def)
      then show "single_line s"
      proof cases
        case 1
        then show ?thesis by (simp add: single_line_def)
      next
        case 2
        with False obtain r' where "r = c # r'" by (cases r) auto
        with 2 show ?thesis by (auto simp: single_line_def)
      qed
    next
      assume "single_line s"
      then consider "newline \<notin> set s" | r where "s = r @ [newline]" "newline \<notin> set r"
        by (auto simp: single_line_def)
      then show "single_line (c # s)"
      proof cases
        case 1
        with False show ?thesis by (simp add: single_line_def)
      next
        case 2
        with False have "c # s = (c # r) @ [newline] \<and> newline \<notin> set (c # r)" by simp
        then show ?thesis unfolding single_line_def by blast
      qed
    qed
    with False Cons.IH show ?thesis by (auto simp: single_line_def)
  qed
qed

lemma TAMP_TAG_disposable: "re_match TAMP_TAG t \<longleftrightarrow> disposable_tag t"
proof -
  have tail: "rmatch (Seq (Chars ''-'') (Seq AnyStar Eol)) u \<noteq> [] \<longleftrightarrow>
      (\<exists>rest. u = ''-'' @ rest \<and> single_line rest)" for u
  proof (cases u)
    case Nil
    then show ?thesis by simp
  next
    case (Cons c u')
    with any_star_eol [of u'] show ?thesis by auto
  qed
  have one: "rmatch (Seq (literal p) (Seq (Chars ''-'') (Seq AnyStar Eol))) t \<noteq> [] \<longleftrightarrow>
      (\<exists>rest. t = p @ ''-'' @ rest \<and> single_line rest)" for p
  proof (cases "prefix p t")
    case True
    then obtain u where u: "t = p @ u" by (auto simp: prefix_def)
    have "rmatch (Seq (literal p) (Seq (Chars ''-'') (Seq AnyStar Eol))) t =
        rmatch (Seq (Chars ''-'') (Seq AnyStar Eol)) u"
      using u by (simp add: rmatch_literal del: rmatch.simps(2,3,4,5))
    with tail [of u] u show ?thesis by simp
  next
    case False
    then have "rmatch (Seq (literal p) (Seq (Chars ''-'') (Seq AnyStar Eol))) t = []"
      by (simp add: rmatch_literal del: rmatch.simps(2,3,4,5))
    moreover from False have "\<not> (\<exists>rest. t = p @ ''-'' @ rest \<and> single_line rest)"
      by (auto simp: prefix_def)
    ultimately show ?thesis by simp
  qed
  have split: "rmatch (Seq (Alt a b) c) s \<noteq> [] \<longleftrightarrow>
      rmatch (Seq a c) s \<noteq> [] \<or> rmatch (Seq b c) s \<noteq> []" for a b c s
    by simp
  show ?thesis
    unfolding re_match_def TAMP_TAG_def disposable_tag_def disposable_prefixes_def
    by (simp only: split one list.set bex_simps insert_iff empty_iff ex_simps
        Set.bex_triv_one_point1 Set.bex_triv_one_point2 bex_Un)
      blast
qed

text \<open>
  C3. \<^verbatim>\<open>is_tags_safe_to_delete\<close> on a list of tags: true on the empty list; on a list
  of one tag, true exactly when \<^verbatim>\<open>TAMP_TAG\<close> matches the tag, that is when the tag is
  one of \<^verbatim>\<open>temp\<close>, \<^verbatim>\<open>poc\<close>, \<^verbatim>\<open>feat\<close>, \<^verbatim>\<open>dev\<close>, \<^verbatim>\<open>debug\<close> (in lower case)
  followed by a hyphen and anything that stays on one line; false on a list of two or
  more elements, whatever they are. \<^verbatim>\<open>tempest-1\<close>, \<^verbatim>\<open>latest\<close>, \<^verbatim>\<open>v1.2.3\<close> and
  \<^verbatim>\<open>Temp-1\<close> are not matched.
\<close>

theorem tag_rule:
  "is_tags_safe_to_delete (JList []) = Inr True
   \<and> is_tags_safe_to_delete (JList [JStr t]) = Inr (re_match TAMP_TAG t)
   \<and> (re_match TAMP_TAG t \<longleftrightarrow> disposable_tag t)
   \<and> is_tags_safe_to_delete (JList (t1 # t2 # ts)) = Inr False
   \<and> \<not> re_match TAMP_TAG ''tempest-1'' \<and> \<not> re_match TAMP_TAG ''latest''
   \<and> \<not> re_match TAMP_TAG ''v1.2.3'' \<and> \<not> re_match TAMP_TAG ''Temp-1''"
proof -
  have "is_tags_safe_to_delete (JList []) = Inr True"
    by (simp add: is_tags_safe_to_delete_def)
  moreover have "is_tags_safe_to_delete (JList [JStr t]) = Inr (re_match TAMP_TAG t)"
    by (simp add: is_tags_safe_to_delete_def)
  moreover have "is_tags_safe_to_delete (JList (t1 # t2 # ts)) = Inr False"
    by (simp add: is_tags_safe_to_delete_def)
  moreover have "\<not> re_match TAMP_TAG ''tempest-1''" "\<not> re_match TAMP_TAG ''latest''"
    "\<not> re_match TAMP_TAG ''v1.2.3''" "\<not> re_match TAMP_TAG ''Temp-1''"
    by (simp_all add: re_match_def TAMP_TAG_def)
  ultimately show ?thesis
    using TAMP_TAG_disposable [of t] by blast
qed

theorem tag_rule_witness:
  "is_tags_safe_to_delete (JList [JStr ''temp-2024'']) = Inr True
   \<and> disposable_tag ''temp-2024''
   \<and> is_tags_safe_to_delete (JList [JStr ''temp-1'', JStr ''temp-2'']) = Inr False"
proof -
  have "re_match TAMP_TAG ''temp-2024''"
    by (simp add: re_match_def TAMP_TAG_def newline_def)
  then show ?thesis
    using tag_rule [of "''temp-2024''" "JStr ''temp-1''" "JStr ''temp-2''" "[]"] by simp
qed

text \<open>
  C9. \<^verbatim>\<open>is_tags_safe_to_delete(None)\<close> returns \<^verbatim>\<open>True\<close>, as it does for the empty
  list: \<^verbatim>\<open>not tags\<close> holds for both.
\<close>

theorem absent_tags_safe:
  "is_tags_safe_to_delete JNull = Inr True
   \<and> is_tags_safe_to_delete JNull = is_tags_safe_to_delete (JList [])"
  by (simp add: is_tags_safe_to_delete_def)



section \<open>Properties of the loops\<close>


lemma deletions_append: "deletions (a @ b) = deletions a @ deletions b"
  by (induction a rule: deletions.induct) simp_all


lemma clock_readings_append: "clock_readings (a @ b) = clock_readings a @ clock_readings b"
  by (induction a rule: clock_readings.induct) simp_all

lemma summaries_append: "summaries (a @ b) = summaries a @ summaries b"
  by (induction a rule: summaries.induct) simp_all

lemma requested_append: "requested (a @ b) = requested a @ requested b"
  by (simp add: requested_def deletions_append)

lemma deletion_event_cases:
  assumes "deletion_event ev"
  obtains (request) n i a where "ev = DeleteVersion n i a"
    | (line) n i where "ev = Print (Deleting n i)"
  using assms by (cases ev rule: deletion_event.cases) simp_all

lemma expected_deletions_skip:
  "\<forall>ev \<in> set a. deletion_event ev \<Longrightarrow> expected_deletions (a @ b) = expected_deletions b"
proof (induction a)
  case Nil
  show ?case by simp
next
  case (Cons ev a)
  then have "deletion_event ev" by simp
  then show ?case using Cons by (cases ev rule: deletion_event_cases) simp_all
qed

lemma readings_follow_skip:
  "\<forall>ev \<in> set a. deletion_event ev \<Longrightarrow>
     readings_follow_listings (a @ b) = readings_follow_listings b"
proof (induction a)
  case Nil
  show ?case by simp
next
  case (Cons ev a)
  then have "deletion_event ev" by simp
  then show ?case using Cons by (cases ev rule: deletion_event_cases) simp_all
qed


lemma delete_versions_Cons_cases:
  assumes "delete_versions g pkg (v # vs) h w = (r, w', tr)"
  obtains (no_name) e where "getitem_str pkg ''name'' = Inl e" "r = Inl e" "tr = []"
  | (no_id) n e where "getitem_str pkg ''name'' = Inr n" "getitem_str v ''id'' = Inl e"
      "r = Inl e" "tr = []"
  | (failed) n i e where "getitem_str pkg ''name'' = Inr n" "getitem_str v ''id'' = Inr i"
      "r = Inl e" "tr = [Print (Deleting n i), DeleteVersion n i (Some e)]"
  | (deleted) n i w1 tr2 where "getitem_str pkg ''name'' = Inr n" "getitem_str v ''id'' = Inr i"
      "tr = [Print (Deleting n i), DeleteVersion n i None] @ tr2"
      "delete_versions g pkg vs True w1 = (r, w', tr2)"
  using assms
  by (auto simp: delete_package_version_def split: sum.splits prod.splits option.splits)

lemma clean_packages_Cons_cases:
  assumes "clean_packages g (pkg # pkgs) h w = (r, w', tr)"
  obtains (no_name) e where "getitem_str pkg ''name'' = Inl e" "r = Inl e" "tr = []"
  | (not_listed) n e where "getitem_str pkg ''name'' = Inr n" "r = Inl e"
      "tr = [ListVersions n (Inl e)]"
  | (not_judged) n versions t e where "getitem_str pkg ''name'' = Inr n" "r = Inl e"
      "tr = [ListVersions n (Inr versions), Now t]" "outdated_at t versions = Inl e"
  | (not_deleted) n versions t outdated w1 w2 tr2 e where "getitem_str pkg ''name'' = Inr n"
      "r = Inl e" "tr = [ListVersions n (Inr versions), Now t] @ tr2"
      "outdated_at t versions = Inr outdated"
      "delete_versions g pkg outdated h w1 = (Inl e, w2, tr2)"
  | (continued) n versions t outdated w1 h' w2 tr2 tr3 where "getitem_str pkg ''name'' = Inr n"
      "tr = [ListVersions n (Inr versions), Now t] @ tr2 @ tr3"
      "outdated_at t versions = Inr outdated"
      "delete_versions g pkg outdated h w1 = (Inr h', w2, tr2)"
      "clean_packages g pkgs h' w2 = (r, w', tr3)"
  using assms
  by (auto simp: get_outdated_versions_def split: sum.splits prod.splits)


lemma delete_versions_events:
  "delete_versions g pkg vs h w = (r, w', tr) \<Longrightarrow> \<forall>ev \<in> set tr. deletion_event ev"
proof (induction vs arbitrary: h w tr)
  case Nil
  then show ?case by simp
next
  case (Cons v vs)
  from Cons.prems show ?case
  proof (cases rule: delete_versions_Cons_cases)
    case (deleted n i w1 tr2)
    with Cons.IH [of True w1 tr2] show ?thesis by simp
  qed simp_all
qed

lemma stops_at_failure_append:
  "\<forall>ev \<in> set a. failure_of ev = None \<Longrightarrow> stops_at_failure r b \<Longrightarrow> stops_at_failure r (a @ b)"
  by (cases "b = []") (auto simp: stops_at_failure_def butlast_append dest: in_set_butlastD)

lemma stops_at_failure_split:
  assumes "stops_at_failure r (before @ ev # after)" and "failure_of ev = Some e"
  shows "after = [] \<and> r = Inl e"
proof (cases "after = []")
  case True
  with assms show ?thesis by (simp add: stops_at_failure_def)
next
  case False
  then have "ev \<in> set (butlast (before @ ev # after))"
    by (simp add: butlast_append)
  with assms show ?thesis by (auto simp: stops_at_failure_def)
qed

lemma delete_versions_stops:
  "delete_versions g pkg vs h w = (r, w', tr) \<Longrightarrow>
     stops_at_failure r tr \<and> (\<forall>h'. r = Inr h' \<longrightarrow> (\<forall>ev \<in> set tr. failure_of ev = None))"
proof (induction vs arbitrary: h w tr)
  case Nil
  then show ?case by (simp add: stops_at_failure_def)
next
  case (Cons v vs)
  from Cons.prems show ?case
  proof (cases rule: delete_versions_Cons_cases)
    case (deleted n i w1 tr2)
    from Cons.IH [OF deleted(4)]
    have stops: "stops_at_failure r tr2"
      and quiet: "\<forall>h'. r = Inr h' \<longrightarrow> (\<forall>ev \<in> set tr2. failure_of ev = None)"
      by simp_all
    have "\<forall>ev \<in> set [Print (Deleting n i), DeleteVersion n i None]. failure_of ev = None"
      by simp
    then have "stops_at_failure r ([Print (Deleting n i), DeleteVersion n i None] @ tr2)"
      using stops by (rule stops_at_failure_append)
    with quiet deleted(3) show ?thesis by simp
  qed (simp_all add: stops_at_failure_def)
qed

lemma delete_versions_flag:
  "delete_versions g pkg vs h w = (Inr h', w', tr) \<Longrightarrow> h' = (h \<or> deletions tr \<noteq> [])"
proof (induction vs arbitrary: h w tr)
  case Nil
  then show ?case by simp
next
  case (Cons v vs)
  from Cons.prems show ?case
  proof (cases rule: delete_versions_Cons_cases)
    case (deleted n i w1 tr2)
    with Cons.IH [of True w1 tr2] show ?thesis by simp
  qed simp_all
qed

lemma delete_versions_requested:
  assumes "getitem_str pkg ''name'' = Inr n"
  shows "delete_versions g pkg vs h w = (r, w', tr) \<Longrightarrow>
     prefix (requested tr) (map (\<lambda>v. (n, getitem_str v ''id'')) vs) \<and>
     (\<forall>h'. r = Inr h' \<longrightarrow> requested tr = map (\<lambda>v. (n, getitem_str v ''id'')) vs)"
proof (induction vs arbitrary: h w tr)
  case Nil
  then show ?case by (simp add: requested_def)
next
  case (Cons v vs)
  from Cons.prems show ?case
  proof (cases rule: delete_versions_Cons_cases)
    case (no_name e)
    with assms show ?thesis by simp
  next
    case (no_id n' e)
    then show ?thesis by (simp add: requested_def)
  next
    case (failed n' i e)
    with assms show ?thesis by (simp add: requested_def)
  next
    case (deleted n' i w1 tr2)
    with assms Cons.IH [of True w1 tr2] show ?thesis by (simp add: requested_def)
  qed
qed


lemma outdated_versions_filter:
  "outdated_versions m vs = Inr out \<Longrightarrow> out = filter (\<lambda>v. version_verdict m v = Inr True) vs"
  by (induction vs arbitrary: out) (auto split: sum.splits)

lemma outdated_at_verdicts:
  "outdated_at t versions = Inr out \<Longrightarrow> out = delete_verdicts t versions"
  by (auto simp: outdated_at_def delete_verdicts_def one_month_ago_def
      dest: outdated_versions_filter split: sum.splits if_splits)

lemma loop_events_summaries: "\<forall>ev \<in> set tr. loop_event ev \<Longrightarrow> summaries tr = []"
proof (induction tr)
  case Nil
  show ?case by simp
next
  case (Cons ev tr)
  then have ev: "loop_event ev" and tr: "summaries tr = []" by simp_all
  show ?case
  proof (cases ev)
    case (Print m)
    with ev tr show ?thesis by (cases m) simp_all
  qed (use tr in simp_all)
qed

lemma deletion_event_loop_event: "deletion_event ev \<Longrightarrow> loop_event ev"
  by (cases ev rule: deletion_event_cases) simp_all

lemma clean_packages_events:
  "clean_packages g pkgs h w = (r, w', tr) \<Longrightarrow> \<forall>ev \<in> set tr. loop_event ev"
proof (induction pkgs arbitrary: h w tr)
  case Nil
  then show ?case by simp
next
  case (Cons pkg pkgs)
  from Cons.prems show ?case
  proof (cases rule: clean_packages_Cons_cases)
    case (not_deleted n versions t outdated w1 w2 tr2 e)
    from delete_versions_events [OF not_deleted(5)] not_deleted(3) show ?thesis
      by (auto intro: deletion_event_loop_event)
  next
    case (continued n versions t outdated w1 h' w2 tr2 tr3)
    from delete_versions_events [OF continued(4)] Cons.IH [OF continued(5)] continued(2)
    show ?thesis by (auto intro: deletion_event_loop_event)
  qed simp_all
qed

lemma clean_packages_stops:
  "clean_packages g pkgs h w = (r, w', tr) \<Longrightarrow> stops_at_failure r tr"
proof (induction pkgs arbitrary: h w tr)
  case Nil
  then show ?case by (simp add: stops_at_failure_def)
next
  case (Cons pkg pkgs)
  have listed: "\<forall>ev \<in> set [ListVersions n (Inr versions), Now t]. failure_of ev = None"
    for n versions t
    by simp
  from Cons.prems show ?case
  proof (cases rule: clean_packages_Cons_cases)
    case (not_deleted n versions t outdated w1 w2 tr2 e)
    from delete_versions_stops [OF not_deleted(5)] have "stops_at_failure r tr2"
      using not_deleted(2) by simp
    with listed have "stops_at_failure r ([ListVersions n (Inr versions), Now t] @ tr2)"
      by (rule stops_at_failure_append)
    with not_deleted(3) show ?thesis by simp
  next
    case (continued n versions t outdated w1 h' w2 tr2 tr3)
    from delete_versions_stops [OF continued(4)]
    have "\<forall>ev \<in> set tr2. failure_of ev = None" by simp
    with listed [of n versions t]
    have "\<forall>ev \<in> set ([ListVersions n (Inr versions), Now t] @ tr2). failure_of ev = None"
      by simp
    then have "stops_at_failure r (([ListVersions n (Inr versions), Now t] @ tr2) @ tr3)"
      using Cons.IH [OF continued(5)] by (rule stops_at_failure_append)
    with continued(2) show ?thesis by simp
  qed (simp_all add: stops_at_failure_def)
qed

lemma clean_packages_flag:
  "clean_packages g pkgs h w = (Inr h', w', tr) \<Longrightarrow> h' = (h \<or> deletions tr \<noteq> [])"
proof (induction pkgs arbitrary: h w tr)
  case Nil
  then show ?case by simp
next
  case (Cons pkg pkgs)
  from Cons.prems show ?case
  proof (cases rule: clean_packages_Cons_cases)
    case (continued n versions t outdated w1 h'' w2 tr2 tr3)
    from delete_versions_flag [OF continued(4)] Cons.IH [OF continued(5)] continued(2)
    show ?thesis by (auto simp: deletions_append)
  qed simp_all
qed

lemma clean_packages_requested:
  "clean_packages g pkgs h w = (r, w', tr) \<Longrightarrow>
     prefix (requested tr) (expected_deletions tr) \<and>
     (\<forall>h'. r = Inr h' \<longrightarrow> requested tr = expected_deletions tr)"
proof (induction pkgs arbitrary: h w tr)
  case Nil
  then show ?case by (simp add: requested_def)
next
  case (Cons pkg pkgs)
  from Cons.prems show ?case
  proof (cases rule: clean_packages_Cons_cases)
    case (no_name e)
    then show ?thesis by (simp add: requested_def)
  next
    case (not_listed n e)
    then show ?thesis by (simp add: requested_def)
  next
    case (not_judged n versions t e)
    then show ?thesis by (simp add: requested_def)
  next
    case (not_deleted n versions t outdated w1 w2 tr2 e)
    have "expected_deletions tr =
        map (\<lambda>v. (n, getitem_str v ''id'')) (delete_verdicts t versions) @ expected_deletions (tr2 @ [])"
      using not_deleted(3) by simp
    also have "expected_deletions (tr2 @ []) = []"
      using delete_versions_events [OF not_deleted(5)] by (subst expected_deletions_skip) simp_all
    finally have "expected_deletions tr = map (\<lambda>v. (n, getitem_str v ''id'')) outdated"
      using outdated_at_verdicts [OF not_deleted(4)] by simp
    moreover have "requested tr = requested tr2"
      using not_deleted(3) by (simp add: requested_def)
    ultimately show ?thesis
      using delete_versions_requested [OF not_deleted(1) not_deleted(5)] not_deleted(2) by simp
  next
    case (continued n versions t outdated w1 h' w2 tr2 tr3)
    have "expected_deletions tr =
        map (\<lambda>v. (n, getitem_str v ''id'')) (delete_verdicts t versions) @ expected_deletions (tr2 @ tr3)"
      using continued(2) by simp
    also have "expected_deletions (tr2 @ tr3) = expected_deletions tr3"
      using delete_versions_events [OF continued(4)] by (rule expected_deletions_skip)
    finally have "expected_deletions tr =
        map (\<lambda>v. (n, getitem_str v ''id'')) outdated @ expected_deletions tr3"
      using outdated_at_verdicts [OF continued(3)] by simp
    moreover have "requested tr = requested tr2 @ requested tr3"
      using continued(2) by (simp add: requested_def deletions_append)
    moreover have "requested tr2 = map (\<lambda>v. (n, getitem_str v ''id'')) outdated"
      using delete_versions_requested [OF continued(1) continued(4)] by simp
    ultimately show ?thesis
      using Cons.IH [OF continued(5)] by simp
  qed
qed


lemma clean_packages_readings:
  "clean_packages g pkgs h w = (r, w', tr) \<Longrightarrow> readings_follow_listings tr"
proof (induction pkgs arbitrary: h w tr)
  case Nil
  then show ?case by simp
next
  case (Cons pkg pkgs)
  from Cons.prems show ?case
  proof (cases rule: clean_packages_Cons_cases)
    case (not_deleted n versions t outdated w1 w2 tr2 e)
    have "readings_follow_listings (tr2 @ [])"
      using delete_versions_events [OF not_deleted(5)] by (subst readings_follow_skip) simp_all
    with not_deleted(3) show ?thesis by simp
  next
    case (continued n versions t outdated w1 h' w2 tr2 tr3)
    have "readings_follow_listings (tr2 @ tr3)"
      using delete_versions_events [OF continued(4)] Cons.IH [OF continued(5)]
      by (subst readings_follow_skip) simp_all
    with continued(2) show ?thesis by simp
  qed simp_all
qed


lemma py_startswith_has_prefix: "py_startswith name p = Inr keep \<Longrightarrow> keep = has_prefix p name"
  by (cases name) simp_all

lemma matching_packages_filter:
  "matching_packages p pkgs = Inr kept \<Longrightarrow>
     kept = filter (qualifies p) pkgs \<and>
     package_names kept =
       Inr (concat (map (\<lambda>pkg. case getitem_str pkg ''name'' of
                                  Inl e \<Rightarrow> []
                                | Inr name \<Rightarrow> if has_prefix p name then [name] else []) pkgs))"
proof (induction pkgs arbitrary: kept)
  case Nil
  then show ?case by simp
next
  case (Cons pkg pkgs)
  from Cons.prems obtain name keep rest where parts:
    "getitem_str pkg ''name'' = Inr name" "py_startswith name p = Inr keep"
    "matching_packages p pkgs = Inr rest" "kept = (if keep then pkg # rest else rest)"
    by (auto split: sum.splits)
  from parts(2) have keep: "keep = has_prefix p name" by (rule py_startswith_has_prefix)
  from Cons.IH [OF parts(3)] have rest: "rest = filter (qualifies p) pkgs"
    and names: "package_names rest =
       Inr (concat (map (\<lambda>pkg. case getitem_str pkg ''name'' of
                                  Inl e \<Rightarrow> []
                                | Inr name \<Rightarrow> if has_prefix p name then [name] else []) pkgs))"
    by blast+
  have "kept = filter (qualifies p) (pkg # pkgs)"
    using parts(1,4) keep rest by (simp add: qualifies_def)
  moreover have "package_names kept =
       Inr (concat (map (\<lambda>pkg. case getitem_str pkg ''name'' of
                                  Inl e \<Rightarrow> []
                                | Inr name \<Rightarrow> if has_prefix p name then [name] else []) (pkg # pkgs)))"
    using parts(1,4) keep names by simp
  ultimately show ?case by simp
qed

lemma select_packages_names:
  "select_packages p packages = Inr kept \<Longrightarrow> package_names kept = Inr (qualifying_names p packages)"
  by (auto simp: select_packages_def qualifying_names_def dest: matching_packages_filter
      split: sum.splits)


lemma run_cases:
  assumes "clean_outdated_packages g p w = (r, w', tr)"
  obtains (no_answer) e where "r = Inl e" "tr = [ListPackages (Inl e)]"
      "fst (list_packages g w) = Inl e"
  | (not_selected) packages e where "r = Inl e" "tr = [ListPackages (Inr packages)]"
      "fst (list_packages g w) = Inr packages"
  | (stopped) packages kept w1 w2 tr2 e where "r = Inl e"
      "tr = ListPackages (Inr packages) # Print (Found_packages (qualifying_names p packages)) # tr2"
      "fst (list_packages g w) = Inr packages" "select_packages p packages = Inr kept"
      "clean_packages g kept False w1 = (Inl e, w2, tr2)"
  | (completed) packages kept w1 w2 tr2 h where "r = Inr ()"
      "tr = ListPackages (Inr packages) # Print (Found_packages (qualifying_names p packages)) # tr2
         @ [Print (if h then Cleanup_done else Nothing_outdated)]"
      "fst (list_packages g w) = Inr packages" "select_packages p packages = Inr kept"
      "clean_packages g kept False w1 = (Inr h, w2, tr2)"
proof -
  show ?thesis
  proof (cases "list_packages g w")
    case (Pair a w1)
    show ?thesis
    proof (cases a)
      case (Inl e)
      with Pair assms have "r = Inl e" "tr = [ListPackages (Inl e)]"
        by (simp_all add: clean_outdated_packages_def get_packages_def)
      with Pair Inl show ?thesis by (intro no_answer [of e]) simp_all
    next
      case (Inr packages)
      show ?thesis
      proof (cases "select_packages p packages")
        case (Inl e)
        with Pair \<open>a = Inr packages\<close> assms have "r = Inl e" "tr = [ListPackages (Inr packages)]"
          by (simp_all add: clean_outdated_packages_def get_packages_def)
        with Pair \<open>a = Inr packages\<close> show ?thesis by (intro not_selected [of e packages]) simp_all
      next
        case (Inr kept)
        note names = select_packages_names [OF Inr]
        obtain r2 w2 tr2 where loop: "clean_packages g kept False w1 = (r2, w2, tr2)"
          by (cases "clean_packages g kept False w1") auto
        show ?thesis
        proof (cases r2)
          case (Inl e)
          with Pair \<open>a = Inr packages\<close> Inr names loop assms
          have "r = Inl e" "tr = ListPackages (Inr packages) #
              Print (Found_packages (qualifying_names p packages)) # tr2"
            by (simp_all add: clean_outdated_packages_def get_packages_def)
          with Pair \<open>a = Inr packages\<close> Inr loop Inl show ?thesis
            by (intro stopped [of e packages tr2 kept w1 w2]) simp_all
        next
          case (Inr h)
          with Pair \<open>a = Inr packages\<close> \<open>select_packages p packages = Inr kept\<close> names loop assms
          have "r = Inr ()" "tr = ListPackages (Inr packages) #
              Print (Found_packages (qualifying_names p packages)) # tr2 @
              [Print (if h then Cleanup_done else Nothing_outdated)]"
            by (simp_all add: clean_outdated_packages_def get_packages_def)
          with Pair \<open>a = Inr packages\<close> \<open>select_packages p packages = Inr kept\<close> loop Inr
          show ?thesis
            by (intro completed [of packages tr2 h kept w1 w2]) simp_all
        qed
      qed
    qed
  qed
qed

lemma expected_deletions_snoc_print: "expected_deletions (a @ [Print m]) = expected_deletions a"
  by (induction a rule: expected_deletions.induct) simp_all

lemma readings_follow_snoc_print:
  "readings_follow_listings (a @ [Print m]) = readings_follow_listings a"
  by (induction a rule: readings_follow_listings.induct) simp_all

lemma clean_packages_quiet:
  "clean_packages g pkgs h w = (Inr h', w', tr) \<Longrightarrow> \<forall>ev \<in> set tr. failure_of ev = None"
proof (induction pkgs arbitrary: h w tr)
  case Nil
  then show ?case by simp
next
  case (Cons pkg pkgs)
  from Cons.prems show ?case
  proof (cases rule: clean_packages_Cons_cases)
    case (continued n versions t outdated w1 h'' w2 tr2 tr3)
    from delete_versions_stops [OF continued(4)] Cons.IH [OF continued(5)] continued(2)
    show ?thesis by auto
  qed simp_all
qed

lemma stops_at_failure_Inl:
  "stops_at_failure (Inl e :: error + 'a) tr \<Longrightarrow> stops_at_failure (Inl e :: error + 'b) tr"
  by (simp add: stops_at_failure_def)

lemma run_stops:
  assumes "clean_outdated_packages g p w = (r, w', tr)"
  shows "stops_at_failure r tr"
  using assms
proof (cases rule: run_cases)
  case (no_answer e)
  then show ?thesis by (simp add: stops_at_failure_def)
next
  case (not_selected packages e)
  then show ?thesis by (simp add: stops_at_failure_def)
next
  case (stopped packages kept w1 w2 tr2 e)
  have "\<forall>ev \<in> set [ListPackages (Inr packages),
      Print (Found_packages (qualifying_names p packages))]. failure_of ev = None"
    by simp
  then have "stops_at_failure r ([ListPackages (Inr packages),
      Print (Found_packages (qualifying_names p packages))] @ tr2)"
    using stops_at_failure_Inl [OF clean_packages_stops [OF stopped(5)]] stopped(1)
    by (intro stops_at_failure_append) simp_all
  with stopped(2) show ?thesis by simp
next
  case (completed packages kept w1 w2 tr2 h)
  from clean_packages_quiet [OF completed(5)] completed(2)
  have "\<forall>ev \<in> set tr. failure_of ev = None" by auto
  then show ?thesis by (auto simp: stops_at_failure_def dest: in_set_butlastD)
qed

lemma outdated_versions_raises:
  "v \<in> set vs \<Longrightarrow> version_verdict m v = Inl e \<Longrightarrow> \<exists>e'. outdated_versions m vs = Inl e'"
  by (induction vs) (auto split: sum.splits)

lemma outdated_at_raises:
  assumes "py_iter versions = Inr vs" and "v \<in> set vs" and "\<And>m. \<exists>e. version_verdict m v = Inl e"
  shows "\<exists>e. outdated_at t versions = Inl e"
proof (cases "one_month_ago t")
  case (Inl e)
  then show ?thesis by (simp add: outdated_at_def)
next
  case (Inr m)
  from assms(3) obtain e where "version_verdict m v = Inl e" by blast
  with assms(2) obtain e' where "outdated_versions m vs = Inl e'"
    by (blast dest: outdated_versions_raises)
  with Inr assms(1) show ?thesis by (simp add: outdated_at_def)
qed

lemma deletion_events_no_listing:
  "\<forall>ev \<in> set tr. deletion_event ev \<Longrightarrow> ListVersions n a \<notin> set tr"
  by auto

lemma clean_packages_unjudged:
  assumes "\<And>t. \<exists>e. outdated_at t versions = Inl e"
  shows "clean_packages g pkgs h w = (r, w', tr) \<Longrightarrow>
     tr = before @ ListVersions n (Inr versions) # after \<Longrightarrow>
     (\<exists>t. after = [Now t]) \<and> (\<exists>e. r = Inl e)"
proof (induction pkgs arbitrary: h w tr before)
  case Nil
  then show ?case by simp
next
  case (Cons pkg pkgs)
  from Cons.prems(1) show ?case
  proof (cases rule: clean_packages_Cons_cases)
    case (no_name e)
    with Cons.prems(2) show ?thesis by simp
  next
    case (not_listed n' e)
    with Cons.prems(2) show ?thesis by (auto simp: Cons_eq_append_conv)
  next
    case (not_judged n' versions' t e)
    with Cons.prems(2) show ?thesis by (auto simp: Cons_eq_append_conv)
  next
    case (not_deleted n' versions' t outdated w1 w2 tr2 e)
    from assms [of t] not_deleted(4) have differ: "versions' \<noteq> versions" by auto
    from delete_versions_events [OF not_deleted(5)]
    have "ListVersions n (Inr versions) \<notin> set tr2" by (rule deletion_events_no_listing)
    with Cons.prems(2) not_deleted(3) differ show ?thesis
      by (auto simp: Cons_eq_append_conv)
  next
    case (continued n' versions' t outdated w1 h' w2 tr2 tr3)
    from assms [of t] continued(3) have differ: "versions' \<noteq> versions" by auto
    from delete_versions_events [OF continued(4)]
    have absent: "ListVersions n (Inr versions) \<notin> set tr2" by (rule deletion_events_no_listing)
    from Cons.prems(2) continued(2) differ
    obtain before' where "tr2 @ tr3 = before' @ ListVersions n (Inr versions) # after"
      by (auto simp: Cons_eq_append_conv)
    with absent obtain before'' where "tr3 = before'' @ ListVersions n (Inr versions) # after"
      by (auto simp: append_eq_append_conv2 append_eq_Cons_conv)
    with Cons.IH [OF continued(5)] show ?thesis by blast
  qed
qed

lemma run_unjudged:
  assumes "clean_outdated_packages g p w = (r, w', tr)"
    and "tr = before @ ListVersions n (Inr versions) # after"
    and "\<And>t. \<exists>e. outdated_at t versions = Inl e"
  shows "(\<exists>t. after = [Now t]) \<and> (\<exists>e. r = Inl e)"
  using assms(1)
proof (cases rule: run_cases)
  case (no_answer e)
  with assms(2) show ?thesis by (auto simp: Cons_eq_append_conv)
next
  case (not_selected packages e)
  with assms(2) show ?thesis by (auto simp: Cons_eq_append_conv)
next
  case (stopped packages kept w1 w2 tr2 e)
  with assms(2) obtain before' where "tr2 = before' @ ListVersions n (Inr versions) # after"
    by (auto simp: Cons_eq_append_conv)
  with clean_packages_unjudged [OF assms(3) stopped(5)] stopped(1) show ?thesis by blast
next
  case (completed packages kept w1 w2 tr2 h)
  with assms(2) obtain before' where
    "tr2 @ [Print (if h then Cleanup_done else Nothing_outdated)] =
       before' @ ListVersions n (Inr versions) # after"
    by (auto simp: Cons_eq_append_conv)
  then obtain before'' after' where "tr2 = before'' @ ListVersions n (Inr versions) # after'"
    by (auto simp: append_eq_append_conv2 append_eq_Cons_conv Cons_eq_append_conv)
  with clean_packages_unjudged [OF assms(3) completed(5)] show ?thesis by blast
qed

lemma run_requested:
  assumes "clean_outdated_packages g p w = (r, w', tr)"
  shows "prefix (requested tr) (expected_deletions tr) \<and>
    (r = Inr () \<longrightarrow> requested tr = expected_deletions tr)"
  using assms
proof (cases rule: run_cases)
  case (no_answer e)
  then show ?thesis by (simp add: requested_def)
next
  case (not_selected packages e)
  then show ?thesis by (simp add: requested_def)
next
  case (stopped packages kept w1 w2 tr2 e)
  from stopped(2) have "requested tr = requested tr2" "expected_deletions tr = expected_deletions tr2"
    by (simp_all add: requested_def)
  with clean_packages_requested [OF stopped(5)] stopped(1) show ?thesis by simp
next
  case (completed packages kept w1 w2 tr2 h)
  from completed(2) have "requested tr = requested tr2" "expected_deletions tr = expected_deletions tr2"
    by (simp_all add: requested_def deletions_append expected_deletions_snoc_print)
  with clean_packages_requested [OF completed(5)] show ?thesis by simp
qed



lemma run_readings:
  assumes "clean_outdated_packages g p w = (r, w', tr)"
  shows "readings_follow_listings tr"
  using assms
proof (cases rule: run_cases)
  case (stopped packages kept w1 w2 tr2 e)
  with clean_packages_readings [OF stopped(5)] show ?thesis by simp
next
  case (completed packages kept w1 w2 tr2 h)
  with clean_packages_readings [OF completed(5)] show ?thesis
    by (simp add: readings_follow_snoc_print)
qed simp_all

lemma run_summary:
  assumes "clean_outdated_packages g p w = (r, w', tr)"
  shows "(r = Inr () \<longrightarrow>
           summaries tr = [if deletions tr = [] then Nothing_outdated else Cleanup_done] \<and>
           last tr = Print (if deletions tr = [] then Nothing_outdated else Cleanup_done) \<and>
           (\<forall>ev \<in> set tr. failure_of ev = None)) \<and>
         (\<forall>e. r = Inl e \<longrightarrow> summaries tr = [])"
  using assms
proof (cases rule: run_cases)
  case (no_answer e')
  then show ?thesis by simp
next
  case (not_selected packages e')
  then show ?thesis by simp
next
  case (stopped packages kept w1 w2 tr2 e')
  from loop_events_summaries [OF clean_packages_events [OF stopped(5)]] stopped(1,2)
  show ?thesis by simp
next
  case (completed packages kept w1 w2 tr2 h)
  from clean_packages_flag [OF completed(5)] have h: "h = (deletions tr2 \<noteq> [])" by simp
  from completed(2) have del: "deletions tr = deletions tr2" by (simp add: deletions_append)
  from loop_events_summaries [OF clean_packages_events [OF completed(5)]]
  have "summaries tr2 = []" .
  with completed(2) h del
  have "summaries tr = [if deletions tr = [] then Nothing_outdated else Cleanup_done]"
    by (simp add: summaries_append)
  moreover from completed(2) h del
  have "last tr = Print (if deletions tr = [] then Nothing_outdated else Cleanup_done)"
    by simp
  moreover from clean_packages_quiet [OF completed(5)] completed(2)
  have "\<forall>ev \<in> set tr. failure_of ev = None" by auto
  ultimately show ?thesis using completed(1) by simp
qed

section \<open>The example runs\<close>

lemma stuck_run:
  "clean_outdated_packages stuck_registry ''writing-'' 0 =
     (Inl GithubException, 1,
      [ListPackages (Inr three_packages),
       Print (Found_packages [JStr ''writing-api'', JStr ''writing-web'']),
       ListVersions (JStr ''writing-api'') (Inr api_versions), Now march_1st,
       Print (Deleting (JStr ''writing-api'') (JNum 1)),
       DeleteVersion (JStr ''writing-api'') (JNum 1) (Some GithubException)])"
  by code_simp

lemma healthy_run:
  "clean_outdated_packages healthy_registry ''writing-'' 0 =
     (Inr (), 2,
      [ListPackages (Inr three_packages),
       Print (Found_packages [JStr ''writing-api'', JStr ''writing-web'']),
       ListVersions (JStr ''writing-api'') (Inr api_versions), Now march_1st,
       Print (Deleting (JStr ''writing-api'') (JNum 1)),
       DeleteVersion (JStr ''writing-api'') (JNum 1) None,
       Print (Deleting (JStr ''writing-api'') (JNum 3)),
       DeleteVersion (JStr ''writing-api'') (JNum 3) None,
       ListVersions (JStr ''writing-web'') (Inr (JList [])), Now march_1st,
       Print Cleanup_done])"
  by code_simp

lemma api_verdicts:
  "delete_verdicts march_1st api_versions =
       [mk_version 1 ''2024-01-21T00:00:00Z'' (JList []),
        mk_version 3 ''2024-01-26T00:00:00Z'' (JList [JStr ''poc-x''])]"
  by code_simp


lemma failing_run:
  "clean_outdated_packages failing_registry ''writing-'' 0 =
     (Inl GithubException, 1,
      [ListPackages (Inr (JList [mk_package 1 ''writing-api''])),
       Print (Found_packages [JStr ''writing-api'']),
       ListVersions (JStr ''writing-api'')
         (Inr (JList [mk_version 7 ''2024-01-21T00:00:00Z'' (JList [])])),
       Now march_1st,
       Print (Deleting (JStr ''writing-api'') (JNum 7)),
       DeleteVersion (JStr ''writing-api'') (JNum 7) (Some GithubException)])"
  by code_simp

lemma ticking_run:
  "clean_outdated_packages ticking_registry ''writing-'' 0 =
     (Inr (), 2,
      [ListPackages (Inr (JList [mk_package 1 ''writing-api'', mk_package 2 ''writing-web''])),
       Print (Found_packages [JStr ''writing-api'', JStr ''writing-web'']),
       ListVersions (JStr ''writing-api'')
         (Inr (JList [mk_version 1 ''2024-01-31T00:00:00Z'' (JList [])])),
       Now march_1st,
       ListVersions (JStr ''writing-web'')
         (Inr (JList [mk_version 1 ''2024-01-31T00:00:00Z'' (JList [])])),
       Now (march_1st + 1),
       Print (Deleting (JStr ''writing-web'') (JNum 1)),
       DeleteVersion (JStr ''writing-web'') (JNum 1) None,
       Print Cleanup_done])"
  by code_simp

lemma garbled_run:
  "clean_outdated_packages garbled_registry ''writing-'' 0 =
     (Inl ValueError, 1,
      [ListPackages (Inr (JList [mk_package 1 ''writing-api''])),
       Print (Found_packages [JStr ''writing-api'']),
       ListVersions (JStr ''writing-api'') (Inr garbled_versions),
       Now march_1st])"
  by code_simp




lemma ticking_verdicts:
  "version_verdict (march_1st - thirty_days)
     (mk_version 1 ''2024-01-31T00:00:00Z'' (JList [])) = Inr False"
  "version_verdict (march_1st + 1 - thirty_days)
     (mk_version 1 ''2024-01-31T00:00:00Z'' (JList [])) = Inr True"
  by code_simp+


text \<open>
  \<^verbatim>\<open>strptime\<close> is more lenient than the pattern reads: one digit is enough for the month,
  the day, the hour, the minute and the second, and the two letters match in lower case.
\<close>

lemma strptime_lenient:
  "strptime_str ''2024-1-21t0:0:0z'' = strptime_str ''2024-01-21T00:00:00Z''"
  by code_simp

lemma strptime_str_error: "strptime_str s = Inl e \<Longrightarrow> e = ValueError"
  by (auto simp: strptime_str_def make_datetime_def
      split: list.splits prod.splits if_splits)

section \<open>The claims about runs\<close>

text \<open>
  C1, as the program has it. A request for a deletion that raises ends the run: the
  failed request is the last event of the trace, so no later version and no later
  package is attempted, and the exception is the outcome of the run.
\<close>

theorem failed_deletion_ends_run:
  assumes "clean_outdated_packages g p w = (r, w', tr)"
    and "tr = before @ DeleteVersion n i (Some e) # after"
  shows "after = [] \<and> r = Inl e"
proof -
  from assms(1) have "stops_at_failure r tr" by (rule run_stops)
  with assms(2) show ?thesis by (auto dest: stops_at_failure_split)
qed

text \<open>The run on the registry that refuses version 1 ends with the refusal.\<close>

theorem failed_deletion_ends_run_witness:
  "fst (clean_outdated_packages stuck_registry ''writing-'' 0) = Inl GithubException"
proof -
  let ?run = "clean_outdated_packages stuck_registry ''writing-'' 0"
  have run: "?run = (fst ?run, fst (snd ?run), snd (snd ?run))"
    by simp
  have trace: "snd (snd ?run) =
      [ListPackages (Inr three_packages),
       Print (Found_packages [JStr ''writing-api'', JStr ''writing-web'']),
       ListVersions (JStr ''writing-api'') (Inr api_versions), Now march_1st,
       Print (Deleting (JStr ''writing-api'') (JNum 1))]
      @ DeleteVersion (JStr ''writing-api'') (JNum 1) (Some GithubException) # []"
    by (simp add: stuck_run)
  from failed_deletion_ends_run [OF run trace] show ?thesis by simp
qed

text \<open>
  C1 as stated fails. The registry refuses to delete version 1 of \<^verbatim>\<open>writing-api\<close>.
  Version 3 of the same package is marked for deletion and \<^verbatim>\<open>writing-web\<close> carries
  the prefix, but the run ends with the exception after the one request: version 3 is
  never asked for and the versions of \<^verbatim>\<open>writing-web\<close> are never listed.
\<close>

theorem failed_deletion_counterexample:
  "fst (clean_outdated_packages stuck_registry ''writing-'' 0) = Inl GithubException
   \<and> deletions (snd (snd (clean_outdated_packages stuck_registry ''writing-'' 0))) =
       [(JStr ''writing-api'', JNum 1)]
   \<and> listings (snd (snd (clean_outdated_packages stuck_registry ''writing-'' 0))) =
       [JStr ''writing-api'']
   \<and> delete_verdicts march_1st api_versions =
       [mk_version 1 ''2024-01-21T00:00:00Z'' (JList []),
        mk_version 3 ''2024-01-26T00:00:00Z'' (JList [JStr ''poc-x''])]
   \<and> qualifying_names ''writing-'' three_packages = [JStr ''writing-api'', JStr ''writing-web'']"
  by (simp add: stuck_run api_verdicts qualifying_names_def three_packages_def mk_package_def)






text \<open>
  C8, as the program has it. A run that completes prints one line of summary, as its
  last event: "cleanup done" when a deletion was requested in the run, "nothing
  outdated" when none was; none was exactly when the listings and clock readings of
  the run call for none; and in such a run no request for a deletion has failed. A run
  that ends with an exception, as it does when a deletion fails, prints no summary.
\<close>

theorem summary_reports_deletions:
  assumes "clean_outdated_packages g p w = (r, w', tr)"
  shows "(r = Inr () \<longrightarrow>
           summaries tr = [if deletions tr = [] then Nothing_outdated else Cleanup_done]
           \<and> last tr = Print (if deletions tr = [] then Nothing_outdated else Cleanup_done)
           \<and> (deletions tr = [] \<longleftrightarrow> expected_deletions tr = [])
           \<and> (\<forall>ev \<in> set tr. failure_of ev = None))
    \<and> (\<forall>e. r = Inl e \<longrightarrow> summaries tr = [])"
proof -
  have "deletions tr = [] \<longleftrightarrow> expected_deletions tr = []" if "r = Inr ()"
  proof -
    from run_requested [OF assms] that have "requested tr = expected_deletions tr" by simp
    then show ?thesis by (auto simp: requested_def)
  qed
  with run_summary [OF assms] show ?thesis by blast
qed

text \<open>
  The run that deletes versions 1 and 3 reports a cleanup; the run that meets a refusal
  reports nothing.
\<close>

theorem summary_reports_deletions_witness:
  "summaries (snd (snd (clean_outdated_packages healthy_registry ''writing-'' 0))) = [Cleanup_done]
   \<and> summaries (snd (snd (clean_outdated_packages stuck_registry ''writing-'' 0))) = []"
proof -
  let ?healthy = "clean_outdated_packages healthy_registry ''writing-'' 0"
  let ?stuck = "clean_outdated_packages stuck_registry ''writing-'' 0"
  have healthy: "?healthy = (fst ?healthy, fst (snd ?healthy), snd (snd ?healthy))"
    and stuck: "?stuck = (fst ?stuck, fst (snd ?stuck), snd (snd ?stuck))"
    by simp_all
  have "fst ?healthy = Inr ()" "deletions (snd (snd ?healthy)) \<noteq> []"
    by (simp_all add: healthy_run)
  with summary_reports_deletions [OF healthy]
  have "summaries (snd (snd ?healthy)) = [Cleanup_done]" by simp
  moreover have "fst ?stuck = Inl GithubException"
    by (simp add: stuck_run)
  with summary_reports_deletions [OF stuck]
  have "summaries (snd (snd ?stuck)) = []" by simp
  ultimately show ?thesis by simp
qed

text \<open>
  C8 as stated fails. The deletion of version 7 is attempted and refused: the run ends
  with the exception and reports neither a cleanup nor that nothing was outdated.
\<close>

theorem summary_missing_counterexample:
  "deletions (snd (snd (clean_outdated_packages failing_registry ''writing-'' 0))) =
     [(JStr ''writing-api'', JNum 7)]
   \<and> summaries (snd (snd (clean_outdated_packages failing_registry ''writing-'' 0))) = []
   \<and> fst (clean_outdated_packages failing_registry ''writing-'' 0) = Inl GithubException"
  by (simp add: failing_run)

text \<open>
  C4, as the program has it. The clock is not handed in: \<^verbatim>\<open>get_outdated_versions\<close>
  reads it, once in each call, after the versions were listed and before any of them is
  judged (and not at all when the listing fails). The one reading decides every verdict
  of that listing: the call returns what \<open>outdated_at\<close> computes from the reading and
  the answer, which, when it is a list, is the versions marked for deletion at that
  reading. In a run the clock is read once after each listing that was answered and at
  no other time, so the packages of one run are judged at as many readings.
\<close>

theorem clock_read_at_each_listing:
  "(clean_outdated_packages g p w = (r, w', tr) \<longrightarrow> readings_follow_listings tr)
   \<and> (get_outdated_versions g n w0 = (r1, w1, tr1) \<longrightarrow>
        (\<forall>e. fst (list_versions g n w0) = Inl e \<longrightarrow> r1 = Inl e \<and> clock_readings tr1 = [])
        \<and> (\<forall>versions. fst (list_versions g n w0) = Inr versions \<longrightarrow>
              clock_readings tr1 = [fst (utc_now g (snd (list_versions g n w0)))]
              \<and> r1 = outdated_at (fst (utc_now g (snd (list_versions g n w0)))) versions
              \<and> (\<forall>outdated. r1 = Inr outdated \<longrightarrow>
                    outdated =
                      delete_verdicts (fst (utc_now g (snd (list_versions g n w0)))) versions)))"
proof -
  have "readings_follow_listings tr" if "clean_outdated_packages g p w = (r, w', tr)"
    using that by (rule run_readings)
  moreover have "r1 = Inl e \<and> clock_readings tr1 = []"
    if "get_outdated_versions g n w0 = (r1, w1, tr1)" and "fst (list_versions g n w0) = Inl e"
    for e
    using that by (auto simp: get_outdated_versions_def split: prod.splits sum.splits)
  moreover have "clock_readings tr1 = [fst (utc_now g (snd (list_versions g n w0)))]
      \<and> r1 = outdated_at (fst (utc_now g (snd (list_versions g n w0)))) versions"
    if "get_outdated_versions g n w0 = (r1, w1, tr1)"
      and "fst (list_versions g n w0) = Inr versions"
    for versions
    using that by (auto simp: get_outdated_versions_def split: prod.splits sum.splits)
  ultimately show ?thesis
    by (auto dest: outdated_at_verdicts [OF sym])
qed

text \<open>
  In the run on the registry whose clock moves, each listing is followed by its own
  reading; the call for \<^verbatim>\<open>writing-web\<close>, made after one reading, reads the first of March
  and a microsecond.
\<close>

theorem clock_read_at_each_listing_witness:
  "readings_follow_listings (snd (snd (clean_outdated_packages ticking_registry ''writing-'' 0)))
   \<and> clock_readings (snd (snd (get_outdated_versions ticking_registry (JStr ''writing-web'') 1))) =
       [march_1st + 1]"
proof -
  let ?run = "clean_outdated_packages ticking_registry ''writing-'' 0"
  let ?call = "get_outdated_versions ticking_registry (JStr ''writing-web'') 1"
  have run: "?run = (fst ?run, fst (snd ?run), snd (snd ?run))"
    and call: "?call = (fst ?call, fst (snd ?call), snd (snd ?call))"
    by simp_all
  have answer: "fst (list_versions ticking_registry (JStr ''writing-web'') 1) =
      Inr (JList [mk_version 1 ''2024-01-31T00:00:00Z'' (JList [])])"
    by (simp add: ticking_registry_def fixed_registry_def)
  have reading: "fst (utc_now ticking_registry
      (snd (list_versions ticking_registry (JStr ''writing-web'') 1))) = march_1st + 1"
    by (simp add: ticking_registry_def fixed_registry_def)
  from clock_read_at_each_listing [of ticking_registry "''writing-''" 0 "fst ?run"
      "fst (snd ?run)" "snd (snd ?run)" "JStr ''writing-web''" 1 "fst ?call" "fst (snd ?call)"
      "snd (snd ?call)"] run call answer reading
  show ?thesis by simp
qed

text \<open>
  C4 as stated fails. Two packages hold the same version: created on
  2024-01-31T00:00:00Z, no tags. In one run the clock is read twice, at the first of
  March and a microsecond later; against the first reading the version is exactly 30
  days old and is kept, against the second it is deleted.
\<close>

theorem clock_read_twice_counterexample:
  "clock_readings (snd (snd (clean_outdated_packages ticking_registry ''writing-'' 0))) =
     [march_1st, march_1st + 1]
   \<and> deletions (snd (snd (clean_outdated_packages ticking_registry ''writing-'' 0))) =
     [(JStr ''writing-web'', JNum 1)]
   \<and> version_verdict (march_1st - thirty_days)
        (mk_version 1 ''2024-01-31T00:00:00Z'' (JList [])) = Inr False
   \<and> version_verdict (march_1st + 1 - thirty_days)
        (mk_version 1 ''2024-01-31T00:00:00Z'' (JList [])) = Inr True"
  by (simp add: ticking_run ticking_verdicts)

text \<open>
  C7. A version whose \<^verbatim>\<open>created_at\<close> is a string that \<^verbatim>\<open>strptime\<close> rejects gets no
  verdict: the loop body raises \<^verbatim>\<open>ValueError\<close>, so does the loop over any listing that
  holds the version (unless an earlier version raised first), and so does
  \<^verbatim>\<open>get_outdated_versions\<close>. In a run, a listing that holds such a version is followed by
  the clock reading and by nothing else: the run ends with an exception, and no version
  of the listing is deleted or passed over.
\<close>

theorem unparsed_timestamp_raises:
  assumes "getitem_str v ''created_at'' = Inr (JStr s)"
    and "strptime_str s = Inl e"
  shows "e = ValueError \<and> version_verdict m v = Inl e
    \<and> (v \<in> set vs \<longrightarrow> (\<exists>e'. outdated_versions m vs = Inl e'))
    \<and> (py_iter versions = Inr vs \<and> v \<in> set vs \<longrightarrow> (\<exists>e'. outdated_at now versions = Inl e'))
    \<and> (clean_outdated_packages g p w = (r, w', tr)
        \<and> tr = before @ ListVersions n (Inr versions) # after
        \<and> py_iter versions = Inr vs \<and> v \<in> set vs \<longrightarrow>
          (\<exists>t. after = [Now t]) \<and> (\<exists>e'. r = Inl e'))"
proof -
  have verdict: "version_verdict m' v = Inl e" for m'
    using assms by (simp add: version_verdict_def)
  then have raises: "\<exists>e'. version_verdict m' v = Inl e'" for m'
    by blast
  have listing: "\<exists>e'. outdated_at t versions = Inl e'"
    if "py_iter versions = Inr vs" and "v \<in> set vs" for t
    using that raises by (rule outdated_at_raises)
  have "(\<exists>t. after = [Now t]) \<and> (\<exists>e'. r = Inl e')"
    if "clean_outdated_packages g p w = (r, w', tr)"
      and "tr = before @ ListVersions n (Inr versions) # after"
      and "py_iter versions = Inr vs" and "v \<in> set vs"
    using that(1,2) listing [OF that(3,4)] by (rule run_unjudged)
  with verdict listing strptime_str_error [OF assms(2)] outdated_versions_raises [of v vs m e]
  show ?thesis by blast
qed

text \<open>
  A timestamp with a blank for the \<^verbatim>\<open>T\<close> and no \<^verbatim>\<open>Z\<close>: the run ends with
  \<^verbatim>\<open>ValueError\<close>, and the 40 days old untagged version listed before it is not deleted.
\<close>

theorem unparsed_timestamp_raises_witness:
  "version_verdict (march_1st - thirty_days) garbled_version = Inl ValueError
   \<and> fst (clean_outdated_packages garbled_registry ''writing-'' 0) = Inl ValueError
   \<and> (\<exists>e. outdated_at march_1st garbled_versions = Inl e)"
proof -
  let ?run = "clean_outdated_packages garbled_registry ''writing-'' 0"
  have created: "getitem_str garbled_version ''created_at'' = Inr (JStr ''2024-01-31 00:00:00'')"
    by (simp add: garbled_version_def mk_version_def)
  have rejected: "strptime_str ''2024-01-31 00:00:00'' = Inl ValueError"
    by code_simp
  have run: "?run = (fst ?run, fst (snd ?run), snd (snd ?run))"
    by simp
  have trace: "snd (snd ?run) =
      [ListPackages (Inr (JList [mk_package 1 ''writing-api''])),
       Print (Found_packages [JStr ''writing-api''])]
      @ ListVersions (JStr ''writing-api'') (Inr garbled_versions) # [Now march_1st]"
    by (simp add: garbled_run)
  have listed: "py_iter garbled_versions =
      Inr [mk_version 1 ''2024-01-21T00:00:00Z'' (JList []), garbled_version]"
    "garbled_version \<in> set [mk_version 1 ''2024-01-21T00:00:00Z'' (JList []), garbled_version]"
    by (simp_all add: garbled_versions_def)
  from unparsed_timestamp_raises [OF created rejected, of "march_1st - thirty_days"
      "[mk_version 1 ''2024-01-21T00:00:00Z'' (JList []), garbled_version]" garbled_versions
      march_1st garbled_registry "''writing-''" 0 "fst ?run" "fst (snd ?run)" "snd (snd ?run)"]
    run trace listed
  show ?thesis by (simp add: garbled_run)
qed



end
